theory Spec2Isabelle
  imports Main "HOL-Library.Word" "HOL-Library.Multiset"
begin

section \<open>The scheduler customisation points (include/unifex/scheduler_concepts.hpp)\<close>

subsection \<open>Sender type declarations\<close>

text \<open>
  C++ types as far as the two sender classes mention them: \<^verbatim>\<open>std::exception_ptr\<close> and the
  instances of a class template. A template template parameter
  (\<^verbatim>\<open>template<typename...> class Variant\<close>) is a function from the list of type arguments to
  the type it names.
\<close>

datatype cpp_type = Exception_ptr | Instance string "cpp_type list"

type_synonym class_template = "cpp_type list \<Rightarrow> cpp_type"

text \<open>\<^verbatim>\<open>schedule_sender::value_types<Variant, Tuple> = Variant<Tuple<>>\<close>\<close>

definition schedule_sender_value_types :: "class_template \<Rightarrow> class_template \<Rightarrow> cpp_type" where
  "schedule_sender_value_types Variant Tuple = Variant [Tuple []]"

text \<open>\<^verbatim>\<open>schedule_sender::error_types<Variant> = Variant<std::exception_ptr>\<close>\<close>

definition schedule_sender_error_types :: "class_template \<Rightarrow> cpp_type" where
  "schedule_sender_error_types Variant = Variant [Exception_ptr]"

text \<open>
  The same two aliases of \<^verbatim>\<open>schedule_after_sender<Duration>\<close>; the class parameter
  \<^verbatim>\<open>Duration\<close> comes first.
\<close>

definition schedule_after_sender_value_types ::
  "cpp_type \<Rightarrow> class_template \<Rightarrow> class_template \<Rightarrow> cpp_type" where
  "schedule_after_sender_value_types Duration Variant Tuple = Variant [Tuple []]"

definition schedule_after_sender_error_types :: "cpp_type \<Rightarrow> class_template \<Rightarrow> cpp_type" where
  "schedule_after_sender_error_types Duration Variant = Variant [Exception_ptr]"

subsection \<open>Customisation points\<close>














section \<open>The pipe benchmark (examples/linux/io_epoll_test.cpp)\<close>

text \<open>
  What the model takes as given: the kernel pipe is a first-in first-out queue of bytes;
  one \<^verbatim>\<open>async_write_some(wPipe, buffer)\<close> appends some leading part of the buffer to it and
  one \<^verbatim>\<open>async_read_some(rPipe, span{buffer.data(), 1})\<close> removes its oldest byte into
  \<^verbatim>\<open>buffer[0]\<close>. How many bytes a write transfers, how reads and writes interleave and what
  \<^verbatim>\<open>steady_clock::now()\<close> returns are inputs of the model.
\<close>

type_synonym byte = "8 word"

text \<open>\<^verbatim>\<open>static constexpr unsigned char data[6] = {'h', 'e', 'l', 'l', 'o', '\n'};\<close>\<close>

definition data :: "byte list" where
  "data = [0x68, 0x65, 0x6C, 0x6C, 0x6F, 0x0A]"

text \<open>
  The variables of \<^verbatim>\<open>main\<close> that the benchmark touches. \<^verbatim>\<open>offset\<close> and \<^verbatim>\<open>reps\<close> are C++
  \<^verbatim>\<open>int\<close>; the two time points are nanosecond counts of the steady clock. \<open>pipe\<close> is the
  kernel's queue, oldest byte first. \<open>delivered\<close> is no variable of the program: it
  records, in order, every byte a completed read has put into \<^verbatim>\<open>buffer[0]\<close>.
\<close>

record bench_state =
  pipe :: "byte list"
  buffer :: "byte list"
  offset :: int
  reps :: int
  start :: int
  end_t :: int
  delivered :: "byte list"

datatype failure = Assertion_failed | Signed_overflow | Division_by_zero

text \<open>The values of a 32-bit \<^verbatim>\<open>int\<close>; arithmetic that leaves them is undefined behaviour.\<close>

definition int_range :: "int \<Rightarrow> bool" where
  "int_range v = (- 2147483648 \<le> v \<and> v \<le> 2147483647)"

text \<open>
  The callback of a completed read (lines 143 to 146):
  \<^verbatim>\<open>assert(data[(reps + offset) % sizeof(data)] == buffer[0]); ++reps;\<close>
  The sum is an \<^verbatim>\<open>int\<close>, converted to the 64-bit \<^verbatim>\<open>size_t\<close> of \<^verbatim>\<open>sizeof\<close> before the
  remainder is taken. The comparison promotes both bytes to \<^verbatim>\<open>int\<close>: the
  \<^verbatim>\<open>unsigned char\<close> of \<open>data\<close> as it is, the \<^verbatim>\<open>char\<close> of the buffer as a signed value.
\<close>

definition read_completed :: "bench_state \<Rightarrow> failure + bench_state" where
  "read_completed s =
     (if \<not> int_range (reps s + offset s) then Inl Signed_overflow
      else if uint (data ! nat (((reps s + offset s) mod 2 ^ 64) mod 6)) \<noteq> sint (buffer s ! 0)
        then Inl Assertion_failed
      else if \<not> int_range (reps s + 1) then Inl Signed_overflow
      else Inr (s\<lparr>reps := reps s + 1\<rparr>))"

text \<open>
  What the two threads see of the pipe. \<open>Write_some k\<close>: one
  \<^verbatim>\<open>sync_wait(async_write_some(wPipe, buffer), ...)\<close> of the writer's loop (lines 109 to 112)
  returns after the first \<open>k\<close> bytes of the buffer, which always spans the whole of \<open>data\<close>,
  went into the pipe; the loop drops the count and submits the whole buffer again.
  \<open>Read_some\<close>: the pending one-byte read finds the pipe readable; on an empty pipe it
  stays pending and nothing runs.
\<close>

datatype pipe_event = Write_some nat | Read_some

fun pipe_step :: "pipe_event \<Rightarrow> bench_state \<Rightarrow> failure + bench_state" where
  "pipe_step (Write_some k) s = Inr (s\<lparr>pipe := pipe s @ take k data\<rparr>)"
| "pipe_step Read_some s =
     (case pipe s of
        [] \<Rightarrow> Inr s
      | b # rest \<Rightarrow>
          read_completed
            (s\<lparr>pipe := rest, buffer := (buffer s)[0 := b], delivered := delivered s @ [b]\<rparr>))"

text \<open>
  \<^verbatim>\<open>pipe_bench(seconds, stopSource)\<close>: reads repeat until the timer stops them. The events
  that fall into the phase are its argument; a failed assertion ends the run.
\<close>

fun pipe_bench :: "pipe_event list \<Rightarrow> bench_state \<Rightarrow> failure + bench_state" where
  "pipe_bench [] s = Inr s"
| "pipe_bench (e # es) s =
     (case pipe_step e s of Inl f \<Rightarrow> Inl f | Inr s' \<Rightarrow> pipe_bench es s')"

text \<open>
  The step between warm-up and benchmark (lines 156 to 163):
  \<^verbatim>\<open>offset = reps % sizeof(data); reps = 0; start = std::chrono::steady_clock::now();\<close>
\<close>

definition warmup_completed :: "int \<Rightarrow> bench_state \<Rightarrow> bench_state" where
  "warmup_completed now s = s\<lparr>offset := (reps s mod 2 ^ 64) mod 6, reps := 0, start := now\<rparr>"

text \<open>
  Lines 124 to 151: an empty pipe, \<^verbatim>\<open>buffer.resize(1)\<close>, both counters zero, and \<open>start\<close>
  and \<open>end\<close> set from two successive readings of the clock.
\<close>

definition bench_init :: "int \<Rightarrow> int \<Rightarrow> bench_state" where
  "bench_init t0 t1 =
     \<lparr>pipe = [], buffer = [0], offset = 0, reps = 0, start = t0, end_t = t1, delivered = []\<rparr>"

text \<open>
  Lines 153 to 165, \<^verbatim>\<open>sequence(pipe_bench(WARMUP_DURATION, stopWarmup), lazy(...),
  pipe_bench(BENCHMARK_DURATION, stopRead))\<close>: the warm-up with its events, the step in
  between at clock reading \<open>t2\<close>, the benchmark with its events.
\<close>

definition main_bench ::
  "int \<Rightarrow> int \<Rightarrow> pipe_event list \<Rightarrow> int \<Rightarrow> pipe_event list \<Rightarrow> failure + bench_state" where
  "main_bench t0 t1 warmup t2 bench =
     (case pipe_bench warmup (bench_init t0 t1) of
        Inl f \<Rightarrow> Inl f
      | Inr s \<Rightarrow> pipe_bench bench (warmup_completed t2 s))"

text \<open>C++ integer division truncates towards zero.\<close>

definition c_quot :: "int \<Rightarrow> int \<Rightarrow> int" where
  "c_quot a b = (if (a < 0) = (b < 0) then \<bar>a\<bar> div \<bar>b\<bar> else - (\<bar>a\<bar> div \<bar>b\<bar>))"

text \<open>\<^verbatim>\<open>a / b\<close> on \<^verbatim>\<open>int\<close>: undefined for a zero divisor and for the one quotient out of range.\<close>

definition int_div :: "int \<Rightarrow> int \<Rightarrow> failure + int" where
  "int_div a b =
     (if b = 0 then Inl Division_by_zero
      else if a = - 2147483648 \<and> b = - 1 then Inl Signed_overflow
      else Inr (c_quot a b))"

text \<open>The cast \<^verbatim>\<open>(int)\<close> of a 64-bit count keeps its low 32 bits.\<close>

definition to_int :: "int \<Rightarrow> int" where
  "to_int v = sint (word_of_int v :: 32 word)"

text \<open>
  Lines 166 to 171:
  \<^verbatim>\<open>int ms = (int)duration_cast<milliseconds>(end - start).count();\<close> and
  \<^verbatim>\<open>int ns = (int)duration_cast<nanoseconds>(end - start).count();\<close>
\<close>

definition report_ms :: "bench_state \<Rightarrow> int" where
  "report_ms s = to_int (c_quot (end_t s - start s) 1000000)"

definition report_ns :: "bench_state \<Rightarrow> int" where
  "report_ns s = to_int (end_t s - start s)"

text \<open>
  Lines 172 to 176: \<^verbatim>\<open>printf("...", ms, ns/reps, reps/ms)\<close>. The result is the three numbers
  printed, or the failure of a division.
\<close>

definition report :: "bench_state \<Rightarrow> failure + int \<times> int \<times> int" where
  "report s =
     (case int_div (report_ns s) (reps s) of
        Inl f \<Rightarrow> Inl f
      | Inr ns_per_op \<Rightarrow>
          (case int_div (reps s) (report_ms s) of
             Inl f \<Rightarrow> Inl f
           | Inr ops_per_ms \<Rightarrow> Inr (report_ms s, ns_per_op, ops_per_ms)))"





section \<open>The reactor: timer queue, I/O registry and run loop\<close>

text \<open>
  Modelled from the spec: the reactor (\<^verbatim>\<open>unifex/linux/io_epoll_context.hpp\<close>, included by
  the example) is not among the sources, so this section follows sections 3 to 5 and 7
  of the specification. An operation ends with its value continuation, with an error
  delivered to its own continuation, or with its cancellation continuation.
\<close>

datatype outcome = Value | Failure nat | Cancellation

text \<open>
  Modelled from the spec: the \<open>TimerEntry\<close> of section 3, its deadline on the reactor's
  monotonic clock and its submission sequence number. The token and the continuation
  are not data of the model: a cancellation arrives as an event that names the entry,
  and the continuation that ran is recorded with the entry.
\<close>

record timer_entry =
  deadline :: int
  seq :: nat

text \<open>Modelled from the spec: the direction of an I/O operation, read or write (section 3).\<close>

datatype direction = Reading | Writing

text \<open>Modelled from the spec: the four states of an I/O operation (sections 3 and 4.3).\<close>

datatype io_state = Pending | Armed | Completed | Cancelled

text \<open>Modelled from the spec: the \<open>IoOperation\<close> of section 3, without its buffer.\<close>

record io_operation =
  io_seq :: nat
  descriptor :: nat
  direction :: direction
  state :: io_state

text \<open>
  Modelled from the spec: what the reactor services is a timer or an I/O operation
  (section 3). Both take their sequence number from the one counter of submissions.
\<close>

datatype operation = Timer_op timer_entry | Io_op io_operation

text \<open>Modelled from the spec: the submission sequence number of an operation.\<close>

fun op_seq :: "operation \<Rightarrow> nat" where
  "op_seq (Timer_op e) = seq e"
| "op_seq (Io_op io) = io_seq io"

text \<open>
  Modelled from the spec: the \<open>ReactorState\<close> of section 3. \<open>timers\<close> is the timer queue,
  kept in the order of \<open>entry_before\<close>; \<open>registry\<close> holds the I/O operations in
  flight; \<open>completions\<close> records, in the order they ran, which continuation of which
  operation the loop has invoked.
\<close>

record reactor_state =
  clock :: int
  next_seq :: nat
  timers :: "timer_entry list"
  registry :: "io_operation list"
  completions :: "(operation \<times> outcome) list"
  stop_requested :: bool

text \<open>
  Modelled from the spec: a reactor that has just been created, its clock reading \<open>t0\<close>:
  nothing is registered, nothing has run, no stop is requested.
\<close>

definition reactor_init :: "int \<Rightarrow> reactor_state" where
  "reactor_init t0 =
     \<lparr>clock = t0, next_seq = 0, timers = [], registry = [], completions = [],
      stop_requested = False\<rparr>"

text \<open>Modelled from the spec: entries are ordered by (deadline, sequence), section 3.\<close>

definition entry_before :: "timer_entry \<Rightarrow> timer_entry \<Rightarrow> bool" where
  "entry_before a b =
     (deadline a < deadline b \<or> (deadline a = deadline b \<and> seq a < seq b))"

text \<open>Modelled from the spec: a schedule request puts its entry into the ordered queue.\<close>

fun enqueue :: "timer_entry \<Rightarrow> timer_entry list \<Rightarrow> timer_entry list" where
  "enqueue e [] = [e]"
| "enqueue e (x # q) = (if entry_before e x then e # x # q else x # enqueue e q)"

text \<open>
  Modelled from the spec: section 4.1 (a), the loop takes every expired entry from the
  head of the queue and invokes its completion, until the head is not yet due.
\<close>

fun expire ::
  "int \<Rightarrow> timer_entry list \<Rightarrow> (operation \<times> outcome) list
    \<Rightarrow> timer_entry list \<times> (operation \<times> outcome) list" where
  "expire now [] invoked = ([], invoked)"
| "expire now (e # q) invoked =
     (if deadline e \<le> now then expire now q (invoked @ [(Timer_op e, Value)])
      else (e # q, invoked))"

text \<open>
  Modelled from the spec: section 4.1 (a) on the state of the reactor, at the reading of
  its clock.
\<close>

definition dispatch_timers :: "reactor_state \<Rightarrow> reactor_state" where
  "dispatch_timers st =
     (let (q, invoked) = expire (clock st) (timers st) (completions st)
      in st\<lparr>timers := q, completions := invoked\<rparr>)"

text \<open>
  Modelled from the spec: sections 4.2 and 4.3. Cancelling an entry still in the queue
  removes it and invokes its cancellation path; cancelling an I/O operation in flight
  deregisters it and invokes its cancellation continuation; cancelling an operation that
  is already resolved does nothing.
\<close>

definition cancel :: "nat \<Rightarrow> reactor_state \<Rightarrow> reactor_state" where
  "cancel k st =
     (case find (\<lambda>e. seq e = k) (timers st) of
        Some e \<Rightarrow>
          st\<lparr>timers := remove1 e (timers st),
             completions := completions st @ [(Timer_op e, Cancellation)]\<rparr>
      | None \<Rightarrow>
          (case find (\<lambda>io. io_seq io = k) (registry st) of
             Some io \<Rightarrow>
               st\<lparr>registry := remove1 io (registry st),
                  completions := completions st @ [(Io_op (io\<lparr>state := Cancelled\<rparr>), Cancellation)]\<rparr>
           | None \<Rightarrow> st))"

text \<open>
  Modelled from the spec: sections 4.1 (b) and 4.3. The attempt of an operation in
  flight would block, and the operation is armed; or it transfers some bytes, and the
  operation completes with the count; or it fails, and the error goes to the operation's
  own continuation.
\<close>

datatype attempt = Would_block | Transferred nat | Failed nat

text \<open>
  Modelled from the spec: the state machine of section 4.3 for the operation with sequence
  number \<open>k\<close>. An attempt for an operation that is no longer in flight does nothing.
\<close>

definition io_attempt :: "nat \<Rightarrow> attempt \<Rightarrow> reactor_state \<Rightarrow> reactor_state" where
  "io_attempt k a st =
     (case find (\<lambda>io. io_seq io = k) (registry st) of
        None \<Rightarrow> st
      | Some io \<Rightarrow>
          (case a of
             Would_block \<Rightarrow>
               st\<lparr>registry :=
                    map (\<lambda>x. if io_seq x = k then x\<lparr>state := Armed\<rparr> else x) (registry st)\<rparr>
           | Transferred n \<Rightarrow>
               st\<lparr>registry := remove1 io (registry st),
                  completions := completions st @ [(Io_op (io\<lparr>state := Completed\<rparr>), Value)]\<rparr>
           | Failed errno \<Rightarrow>
               st\<lparr>registry := remove1 io (registry st),
                  completions :=
                    completions st @ [(Io_op (io\<lparr>state := Completed\<rparr>), Failure errno)]\<rparr>))"

text \<open>
  Modelled from the spec: what reaches the loop (sections 4.1 and 5). A timer or an I/O
  operation is submitted; a cancellation is requested for the operation with a sequence
  number; the blocking wait returns at a reading of the clock; the attempt of an
  operation has a result; the stop token of \<open>run\<close> fires.
\<close>

datatype event =
  Schedule_at int
| Submit_io nat direction
| Cancel nat
| Wait_returns int
| Attempt nat attempt
| Request_stop

text \<open>
  Modelled from the spec: how the reactor thread handles one event. A submission is
  registered under the next sequence number (sections 3 and 5); when the wait returns,
  the monotonic clock has not gone back and the expired timers are dispatched (4.1).
\<close>

fun step :: "event \<Rightarrow> reactor_state \<Rightarrow> reactor_state" where
  "step (Schedule_at tp) st =
     st\<lparr>timers := enqueue \<lparr>deadline = tp, seq = next_seq st\<rparr> (timers st),
        next_seq := Suc (next_seq st)\<rparr>"
| "step (Submit_io fd dir) st =
     st\<lparr>registry :=
          registry st @ [\<lparr>io_seq = next_seq st, descriptor = fd, direction = dir, state = Pending\<rparr>],
        next_seq := Suc (next_seq st)\<rparr>"
| "step (Cancel k) st = cancel k st"
| "step (Wait_returns t) st = dispatch_timers (st\<lparr>clock := max (clock st) t\<rparr>)"
| "step (Attempt k a) st = io_attempt k a st"
| "step Request_stop st = st\<lparr>stop_requested := True\<rparr>"

text \<open>Modelled from the spec: the reactor, alive, handles the events in their order.\<close>

fun steps :: "event list \<Rightarrow> reactor_state \<Rightarrow> reactor_state" where
  "steps [] st = st"
| "steps (e # es) st = steps es (step e st)"

text \<open>
  Modelled from the spec: the teardown of \<open>run\<close>, sections 4.1 and 7. Every operation
  still registered is resolved through its cancellation path.
\<close>

definition teardown :: "reactor_state \<Rightarrow> reactor_state" where
  "teardown st =
     st\<lparr>timers := [], registry := [],
        completions :=
          completions st
          @ map (\<lambda>e. (Timer_op e, Cancellation)) (timers st)
          @ map (\<lambda>io. (Io_op (io\<lparr>state := Cancelled\<rparr>), Cancellation)) (registry st)\<rparr>"

text \<open>
  Modelled from the spec: \<open>run(stopToken)\<close>, section 4.1. The loop handles what reaches
  it until it finds the stop requested; then it tears down and returns. With no event
  left and no stop requested it stays blocked: it does not return, which is \<open>None\<close>.
\<close>

fun run :: "event list \<Rightarrow> reactor_state \<Rightarrow> reactor_state option" where
  "run [] st = (if stop_requested st then Some (teardown st) else None)"
| "run (e # es) st = (if stop_requested st then Some (teardown st) else run es (step e st))"

text \<open>Vocabulary for statements about the reactor.\<close>

fun fired :: "(operation \<times> outcome) list \<Rightarrow> timer_entry list" where
  "fired [] = []"
| "fired ((Timer_op e, Value) # invoked) = e # fired invoked"
| "fired (c # invoked) = fired invoked"

fun until_stop :: "event list \<Rightarrow> event list" where
  "until_stop [] = []"
| "until_stop (e # es) = (if e = Request_stop then [e] else e # until_stop es)"

definition resolved_seqs :: "reactor_state \<Rightarrow> nat list" where
  "resolved_seqs st = map (\<lambda>c. op_seq (fst c)) (completions st)"

definition pending_seqs :: "reactor_state \<Rightarrow> nat list" where
  "pending_seqs st = map seq (timers st) @ map io_seq (registry st)"

text \<open>
  Invariants of the timer queue: it is ordered and holds only sequence numbers already
  handed out; and the timers of a set \<open>T\<close> that have fired did so in order, each before
  every timer of \<open>T\<close> still queued.
\<close>

definition queue_ok :: "reactor_state \<Rightarrow> bool" where
  "queue_ok st =
     (sorted_wrt entry_before (timers st) \<and> (\<forall>e \<in> set (timers st). seq e < next_seq st))"

definition fires_in_order :: "timer_entry set \<Rightarrow> reactor_state \<Rightarrow> bool" where
  "fires_in_order T st =
     ((\<forall>e \<in> T. seq e < next_seq st)
      \<and> sorted_wrt entry_before (filter (\<lambda>e. e \<in> T) (fired (completions st)))
      \<and> (\<forall>a \<in> set (fired (completions st)). a \<in> T \<longrightarrow>
            (\<forall>e \<in> set (timers st). e \<in> T \<longrightarrow> entry_before a e)))"

text \<open>Every sequence number handed out is pending or resolved, once.\<close>

definition accounted :: "reactor_state \<Rightarrow> bool" where
  "accounted st =
     (mset (resolved_seqs st) + mset (pending_seqs st) = mset [0 ..< next_seq st])"

section \<open>Properties of the sender type declarations\<close>

text \<open>
  C9. Both scheduling senders declare the same completion signatures, whatever templates
  the consumer instantiates them with: the value types are a variant with exactly one
  alternative, the empty tuple, and the error types are a variant with exactly one
  alternative, \<^verbatim>\<open>std::exception_ptr\<close>. With the standard templates these are
  \<^verbatim>\<open>std::variant<std::tuple<>>\<close> and \<^verbatim>\<open>std::variant<std::exception_ptr>\<close>.
\<close>

theorem scheduling_senders_declare_empty_value_and_one_error:
  "schedule_sender_value_types Variant Tuple = Variant [Tuple []]
   \<and> schedule_sender_error_types Variant = Variant [Exception_ptr]
   \<and> schedule_after_sender_value_types Duration Variant Tuple = Variant [Tuple []]
   \<and> schedule_after_sender_error_types Duration Variant = Variant [Exception_ptr]
   \<and> schedule_after_sender_value_types Duration Variant Tuple
       = schedule_sender_value_types Variant Tuple
   \<and> schedule_after_sender_error_types Duration Variant = schedule_sender_error_types Variant
   \<and> schedule_sender_value_types (Instance ''std::variant'') (Instance ''std::tuple'')
       = Instance ''std::variant'' [Instance ''std::tuple'' []]
   \<and> schedule_sender_error_types (Instance ''std::variant'')
       = Instance ''std::variant'' [Exception_ptr]"
  by (simp add: schedule_sender_value_types_def schedule_sender_error_types_def
      schedule_after_sender_value_types_def schedule_after_sender_error_types_def)

section \<open>Properties of the customisation points\<close>





section \<open>Properties of the pipe benchmark\<close>












lemma pipe_step_times:
  "pipe_step e s = Inr s' \<Longrightarrow> start s' = start s \<and> end_t s' = end_t s"
  by (cases e) (auto simp: read_completed_def split: list.splits if_splits)

lemma pipe_bench_times:
  "pipe_bench evs s = Inr s' \<Longrightarrow> start s' = start s \<and> end_t s' = end_t s"
proof (induction evs arbitrary: s)
  case Nil
  then show ?case by simp
next
  case (Cons e evs)
  then show ?case
    by (auto split: sum.splits dest!: pipe_step_times)
qed

lemma to_int_id: "- 2147483648 \<le> v \<Longrightarrow> v \<le> 2147483647 \<Longrightarrow> to_int v = v"
  unfolding to_int_def by (simp add: sint_sbintrunc' signed_take_bit_int_eq_self_iff)

lemma c_quot_ms_nonpos: "d \<le> 0 \<Longrightarrow> c_quot d 1000000 \<le> 0"
  by (simp add: c_quot_def pos_imp_zdiv_nonneg_iff)

lemma c_quot_ms_zero: "d \<le> 0 \<Longrightarrow> - 1000000 < d \<Longrightarrow> c_quot d 1000000 = 0"
  by (simp add: c_quot_def)

lemma c_quot_ms_lower: "d \<le> 0 \<Longrightarrow> - 2147483648000000 \<le> d \<Longrightarrow> - 2147483648 \<le> c_quot d 1000000"
  by (simp add: c_quot_def) linarith

text \<open>
  C10. Take any run that reaches the report, the steady clock reading \<open>t1\<close> when \<open>end\<close>
  is set and \<open>t2\<close>, not earlier, when the step after the warm-up sets \<open>start\<close> again.
  At the report \<open>end\<close> is still \<open>t1\<close> and \<open>start\<close> is \<open>t2\<close>, so the duration
  \<open>end - start\<close> is not positive. Nothing guards the two divisions: with \<open>reps = 0\<close>
  the report divides by zero in \<open>ns/reps\<close>; when less than a millisecond lies between
  the two readings, \<open>ms\<close> is zero and it divides by zero in \<open>reps/ms\<close>; and whenever
  the millisecond count fits an \<^verbatim>\<open>int\<close>, the divisor \<open>ms\<close> is zero or negative.
\<close>

theorem report_duration_never_positive:
  assumes run: "main_bench t0 t1 warmup t2 bench = Inr s" and mono: "t1 \<le> t2"
  shows "end_t s = t1 \<and> start s = t2 \<and> end_t s - start s \<le> 0
     \<and> (reps s = 0 \<longrightarrow> report s = Inl Division_by_zero)
     \<and> (t2 - t1 < 1000000 \<longrightarrow> report_ms s = 0 \<and> report s = Inl Division_by_zero)
     \<and> (t2 - t1 \<le> 2147483648000000 \<longrightarrow> report_ms s \<le> 0)"
proof -
  from run obtain s1 where p1: "pipe_bench warmup (bench_init t0 t1) = Inr s1"
    and p2: "pipe_bench bench (warmup_completed t2 s1) = Inr s"
    by (auto simp: main_bench_def split: sum.splits)
  have "end_t s1 = t1"
    using pipe_bench_times [OF p1] by (simp add: bench_init_def)
  then have e: "end_t s = t1" and st: "start s = t2"
    using pipe_bench_times [OF p2] by (simp_all add: warmup_completed_def)
  have d: "end_t s - start s \<le> 0" using e st mono by simp
  have zero_reps: "report s = Inl Division_by_zero" if "reps s = 0"
    using that by (simp add: report_def int_div_def)
  have zero_ms: "report_ms s = 0 \<and> report s = Inl Division_by_zero" if "t2 - t1 < 1000000"
  proof -
    have near: "- 1000000 < end_t s - start s" using that e st by simp
    have ms: "report_ms s = 0"
      using c_quot_ms_zero [OF d near] by (simp add: report_ms_def to_int_def)
    have "report_ns s = end_t s - start s"
      unfolding report_ns_def using d near by (intro to_int_id) simp_all
    then have "report_ns s \<noteq> - 2147483648" using near by simp
    then show ?thesis
      using ms by (simp add: report_def int_div_def)
  qed
  have neg_ms: "report_ms s \<le> 0" if "t2 - t1 \<le> 2147483648000000"
  proof -
    have low: "- 2147483648000000 \<le> end_t s - start s" using that e st by simp
    have "to_int (c_quot (end_t s - start s) 1000000) = c_quot (end_t s - start s) 1000000"
      using c_quot_ms_lower [OF d low] c_quot_ms_nonpos [OF d] by (intro to_int_id) simp_all
    then show ?thesis
      using c_quot_ms_nonpos [OF d] by (simp add: report_ms_def)
  qed
  show ?thesis
    using e st d zero_reps zero_ms neg_ms by blast
qed

theorem report_duration_never_positive_witness:
  "(\<exists>s. main_bench 0 50 [Write_some 6, Read_some, Read_some] 3000000050 [Read_some, Read_some] = Inr s
      \<and> end_t s = 50 \<and> start s = 3000000050 \<and> end_t s - start s \<le> 0
      \<and> reps s = 2 \<and> report_ms s = - 3000 \<and> report s = Inr (- 3000, 647483648, 0))
   \<and> (\<exists>s. main_bench 0 50 [Write_some 6, Read_some] 1050 [] = Inr s
      \<and> end_t s = 50 \<and> start s = 1050 \<and> end_t s - start s \<le> 0
      \<and> reps s = 0 \<and> report_ms s = 0 \<and> report s = Inl Division_by_zero)"
proof -
  let ?a = "\<lparr>pipe = [0x6F, 0x0A], buffer = [0x6C], offset = 2, reps = 2,
             start = 3000000050, end_t = 50, delivered = [0x68, 0x65, 0x6C, 0x6C]\<rparr>"
  let ?b = "\<lparr>pipe = [0x65, 0x6C, 0x6C, 0x6F, 0x0A], buffer = [0x68], offset = 1, reps = 0,
             start = 1050, end_t = 50, delivered = [0x68]\<rparr>"
  have a: "main_bench 0 50 [Write_some 6, Read_some, Read_some] 3000000050 [Read_some, Read_some]
             = Inr ?a"
    by (simp add: main_bench_def bench_init_def warmup_completed_def read_completed_def
        int_range_def data_def)
  have b: "main_bench 0 50 [Write_some 6, Read_some] 1050 [] = Inr ?b"
    by (simp add: main_bench_def bench_init_def warmup_completed_def read_completed_def
        int_range_def data_def)
  have ra: "report ?a = Inr (- 3000, 647483648, 0)" "report_ms ?a = - 3000"
    by (simp_all add: report_def report_ms_def report_ns_def int_div_def to_int_def c_quot_def)
  from report_duration_never_positive [OF a] report_duration_never_positive [OF b] a b ra
  show ?thesis by simp
qed

section \<open>Properties of the reactor\<close>

subsection \<open>Queue and registry\<close>

lemma entry_before_trans: "entry_before a b \<Longrightarrow> entry_before b c \<Longrightarrow> entry_before a c"
  by (auto simp: entry_before_def)

lemma entry_before_total: "\<not> entry_before a b \<Longrightarrow> seq a \<noteq> seq b \<Longrightarrow> entry_before b a"
  by (auto simp: entry_before_def)

lemma set_enqueue: "set (enqueue e q) = insert e (set q)"
  by (induction q) auto

lemma mset_enqueue: "mset (enqueue e q) = add_mset e (mset q)"
  by (induction q) auto

lemma sorted_enqueue:
  "sorted_wrt entry_before q \<Longrightarrow> \<forall>x \<in> set q. seq x \<noteq> seq e
    \<Longrightarrow> sorted_wrt entry_before (enqueue e q)"
proof (induction q)
  case Nil
  then show ?case by simp
next
  case (Cons x q)
  show ?case
  proof (cases "entry_before e x")
    case True
    then have "\<forall>y \<in> set q. entry_before e y"
      using Cons.prems(1) by (auto intro: entry_before_trans)
    with True Cons.prems(1) show ?thesis by simp
  next
    case False
    then have "entry_before x e"
      using Cons.prems(2) by (auto intro: entry_before_total)
    moreover have "sorted_wrt entry_before (enqueue e q)"
      using Cons by simp
    ultimately show ?thesis
      using False Cons.prems(1) by (simp add: set_enqueue)
  qed
qed

lemma sorted_remove1: "sorted_wrt P xs \<Longrightarrow> sorted_wrt P (remove1 x xs)"
  by (induction xs) (auto dest: notin_set_remove1)

lemma fired_append: "fired (xs @ ys) = fired xs @ fired ys"
  by (induction xs rule: fired.induct) simp_all

lemma find_SomeD: "find P xs = Some x \<Longrightarrow> x \<in> set xs \<and> P x"
  by (induction xs) (auto split: if_splits)

lemma expire_timers_subset: "expire now q cs = (q', cs') \<Longrightarrow> set q' \<subseteq> set q"
proof (induction q arbitrary: cs)
  case Nil
  then show ?case by simp
next
  case (Cons x q)
  show ?case
  proof (cases "deadline x \<le> now")
    case True
    with Cons.prems have "expire now q (cs @ [(Timer_op x, Value)]) = (q', cs')" by simp
    from Cons.IH [OF this] show ?thesis by auto
  next
    case False
    then show ?thesis using Cons.prems by auto
  qed
qed

lemma expire_leaves_not_due:
  "sorted_wrt entry_before q \<Longrightarrow> expire now q cs = (q', cs')
    \<Longrightarrow> \<forall>e \<in> set q'. now < deadline e"
proof (induction q arbitrary: cs)
  case Nil
  then show ?case by simp
next
  case (Cons e q)
  show ?case
  proof (cases "deadline e \<le> now")
    case True
    with Cons.prems have "expire now q (cs @ [(Timer_op e, Value)]) = (q', cs')"
      and "sorted_wrt entry_before q" by simp_all
    from Cons.IH [OF this(2) this(1)] show ?thesis .
  next
    case False
    then have "q' = e # q" using Cons.prems(2) by simp
    moreover have "\<forall>x \<in> set q. deadline e \<le> deadline x"
      using Cons.prems(1) by (auto simp: entry_before_def)
    ultimately show ?thesis using False by auto
  qed
qed

lemma expire_keeps_or_fires:
  "expire now q cs = (q', cs') \<Longrightarrow> e \<in> set q \<union> set (fired cs)
    \<Longrightarrow> e \<in> set q' \<union> set (fired cs')"
proof (induction q arbitrary: cs)
  case Nil
  then show ?case by simp
next
  case (Cons x q)
  show ?case
  proof (cases "deadline x \<le> now")
    case True
    with Cons.prems have "expire now q (cs @ [(Timer_op x, Value)]) = (q', cs')" by simp
    moreover have "e \<in> set q \<union> set (fired (cs @ [(Timer_op x, Value)]))"
      using Cons.prems(2) by (auto simp: fired_append)
    ultimately show ?thesis by (rule Cons.IH)
  next
    case False
    then show ?thesis using Cons.prems by auto
  qed
qed

subsection \<open>Every operation is resolved once\<close>

lemma mset_map_remove1:
  "x \<in> set xs \<Longrightarrow> mset (map f xs) = add_mset (f x) (mset (map f (remove1 x xs)))"
  by (induction xs) auto

lemma expire_accounted:
  "expire now q cs = (q', cs')
    \<Longrightarrow> mset (map (\<lambda>c. op_seq (fst c)) cs') + mset (map seq q')
        = mset (map (\<lambda>c. op_seq (fst c)) cs) + mset (map seq q)"
proof (induction q arbitrary: cs)
  case Nil
  then show ?case by simp
next
  case (Cons e q)
  show ?case
  proof (cases "deadline e \<le> now")
    case True
    with Cons.prems have "expire now q (cs @ [(Timer_op e, Value)]) = (q', cs')" by simp
    from Cons.IH [OF this] show ?thesis by simp
  next
    case False
    then show ?thesis using Cons.prems by auto
  qed
qed

lemma accounted_init: "accounted (reactor_init t0)"
  by (simp add: accounted_def reactor_init_def resolved_seqs_def pending_seqs_def)

text \<open>An operation that leaves the pending ones and is recorded as resolved.\<close>

lemma accounted_moved:
  assumes "accounted st"
    and "mset (pending_seqs st) = add_mset k (mset (pending_seqs st'))"
    and "resolved_seqs st' = resolved_seqs st @ [k]"
    and "next_seq st' = next_seq st"
  shows "accounted st'"
  using assms by (simp add: accounted_def)

lemma accounted_same:
  assumes "accounted st"
    and "pending_seqs st' = pending_seqs st"
    and "resolved_seqs st' = resolved_seqs st"
    and "next_seq st' = next_seq st"
  shows "accounted st'"
  using assms by (simp add: accounted_def)

lemma accounted_submitted:
  assumes "accounted st"
    and "mset (pending_seqs st') = add_mset (next_seq st) (mset (pending_seqs st))"
    and "resolved_seqs st' = resolved_seqs st"
    and "next_seq st' = Suc (next_seq st)"
  shows "accounted st'"
  using assms by (simp add: accounted_def)

lemma cancel_accounted:
  assumes acc: "accounted st"
  shows "accounted (cancel k st)"
proof (cases "find (\<lambda>e. seq e = k) (timers st)")
  case (Some e)
  then have "e \<in> set (timers st)" by (simp add: find_SomeD)
  from mset_map_remove1 [OF this, of seq] show ?thesis
    by (intro accounted_moved [OF acc, of "seq e"])
      (simp_all add: cancel_def Some resolved_seqs_def pending_seqs_def del: mset_map)
next
  case None
  show ?thesis
  proof (cases "find (\<lambda>io. io_seq io = k) (registry st)")
    case (Some io)
    then have "io \<in> set (registry st)" by (simp add: find_SomeD)
    from mset_map_remove1 [OF this, of io_seq] show ?thesis
      by (intro accounted_moved [OF acc, of "io_seq io"])
        (simp_all add: cancel_def None Some resolved_seqs_def pending_seqs_def del: mset_map)
  next
    case None': None
    with None acc show ?thesis by (simp add: cancel_def)
  qed
qed

lemma io_attempt_accounted:
  assumes acc: "accounted st"
  shows "accounted (io_attempt k a st)"
proof (cases "find (\<lambda>io. io_seq io = k) (registry st)")
  case None
  with acc show ?thesis by (simp add: io_attempt_def)
next
  case (Some io)
  then have "io \<in> set (registry st)" by (simp add: find_SomeD)
  note rm = mset_map_remove1 [OF this, of io_seq]
  show ?thesis
  proof (cases a)
    case Would_block
    show ?thesis
      by (intro accounted_same [OF acc])
        (simp_all add: io_attempt_def Some Would_block resolved_seqs_def pending_seqs_def)
  next
    case (Transferred n)
    from rm show ?thesis
      by (intro accounted_moved [OF acc, of "io_seq io"])
        (simp_all add: io_attempt_def Some Transferred resolved_seqs_def pending_seqs_def
          del: mset_map)
  next
    case (Failed errno)
    from rm show ?thesis
      by (intro accounted_moved [OF acc, of "io_seq io"])
        (simp_all add: io_attempt_def Some Failed resolved_seqs_def pending_seqs_def
          del: mset_map)
  qed
qed

lemma dispatch_accounted:
  assumes acc: "accounted st"
  shows "accounted (dispatch_timers st)"
proof -
  obtain q' cs' where ex: "expire (clock st) (timers st) (completions st) = (q', cs')"
    by fastforce
  let ?io = "mset (map io_seq (registry st))"
  have "mset (resolved_seqs (dispatch_timers st)) + mset (pending_seqs (dispatch_timers st))
      = (mset (map (\<lambda>c. op_seq (fst c)) cs') + mset (map seq q')) + ?io"
    by (simp add: dispatch_timers_def ex resolved_seqs_def pending_seqs_def)
  also have "\<dots> = (mset (map (\<lambda>c. op_seq (fst c)) (completions st)) + mset (map seq (timers st)))
      + ?io"
    by (simp only: expire_accounted [OF ex])
  also have "\<dots> = mset (resolved_seqs st) + mset (pending_seqs st)"
    by (simp add: resolved_seqs_def pending_seqs_def)
  also have "\<dots> = mset [0 ..< next_seq st]"
    using acc by (simp only: accounted_def)
  finally show ?thesis
    by (simp add: accounted_def dispatch_timers_def ex)
qed

lemma step_accounted:
  assumes acc: "accounted st"
  shows "accounted (step e st)"
proof (cases e)
  case (Schedule_at tp)
  show ?thesis
    by (intro accounted_submitted [OF acc])
      (simp_all add: Schedule_at resolved_seqs_def pending_seqs_def mset_enqueue)
next
  case (Submit_io fd dir)
  show ?thesis
    by (intro accounted_submitted [OF acc])
      (simp_all add: Submit_io resolved_seqs_def pending_seqs_def)
next
  case (Cancel k)
  then show ?thesis by (simp add: cancel_accounted [OF acc])
next
  case (Wait_returns t)
  have "accounted (st\<lparr>clock := max (clock st) t\<rparr>)"
    by (intro accounted_same [OF acc]) (simp_all add: resolved_seqs_def pending_seqs_def)
  then show ?thesis by (simp add: Wait_returns dispatch_accounted)
next
  case (Attempt k a)
  then show ?thesis by (simp add: io_attempt_accounted [OF acc])
next
  case Request_stop
  show ?thesis
    by (intro accounted_same [OF acc])
      (simp_all add: Request_stop resolved_seqs_def pending_seqs_def)
qed

lemma steps_accounted: "accounted st \<Longrightarrow> accounted (steps evs st)"
  by (induction evs arbitrary: st) (simp_all add: step_accounted)

lemma accounted_once:
  assumes "accounted st" and "k < next_seq st"
  shows "count_list (resolved_seqs st @ pending_seqs st) k = 1"
proof -
  have "count (mset (resolved_seqs st @ pending_seqs st)) k = count (mset [0 ..< next_seq st]) k"
    using assms(1) by (simp add: accounted_def)
  also have "\<dots> = 1"
    using assms(2) by (simp add: count_mset count_list_0_iff distinct_count_atmost_1)
  finally show ?thesis by (simp add: count_mset)
qed

lemma step_keeps_running:
  "e \<noteq> Request_stop \<Longrightarrow> stop_requested (step e st) = stop_requested st"
  by (cases e)
    (auto simp: cancel_def io_attempt_def dispatch_timers_def split_beta
      split: option.splits attempt.splits)

lemma run_until_stop:
  "\<not> stop_requested st \<Longrightarrow> Request_stop \<in> set evs
    \<Longrightarrow> run evs st = Some (teardown (steps (until_stop evs) st))"
proof (induction evs arbitrary: st)
  case Nil
  then show ?case by simp
next
  case (Cons e evs)
  show ?case
  proof (cases "e = Request_stop")
    case True
    with Cons.prems(1) show ?thesis by (cases evs) simp_all
  next
    case False
    with Cons.prems have "\<not> stop_requested (step e st)" "Request_stop \<in> set evs"
      by (simp_all add: step_keeps_running)
    from Cons.IH [OF this] False Cons.prems(1) show ?thesis by simp
  qed
qed

lemma teardown_accounted: "accounted st \<Longrightarrow> accounted (teardown st)"
  by (simp add: accounted_def teardown_def resolved_seqs_def pending_seqs_def comp_def ac_simps)

text \<open>
  C3. While the reactor is alive, after any events \<open>evs0\<close>, every sequence number handed
  out belongs to exactly one operation that is either still registered or resolved, and
  resolved once: by its value continuation, by an error delivered as its completion, or
  by its cancellation continuation. When the stop token fires among the events \<open>evs\<close>, \<open>run\<close> returns; it
  returns the teardown of the state \<open>st\<close> the loop had reached when it saw the stop: no
  timer and no I/O operation is left registered, every operation ever submitted is
  resolved exactly once, and every timer and I/O operation still registered in \<open>st\<close>
  has received a cancellation.
\<close>

theorem every_operation_resolved_exactly_once:
  assumes "Request_stop \<in> set evs"
  shows "(let st = steps evs0 (reactor_init t0)
          in \<forall>k < next_seq st. count_list (resolved_seqs st @ pending_seqs st) k = 1)
     \<and> (let st = steps (until_stop evs) (reactor_init t0); st' = teardown st
        in run evs (reactor_init t0) = Some st'
         \<and> timers st' = [] \<and> registry st' = []
         \<and> (\<forall>k < next_seq st'. count_list (resolved_seqs st') k = 1)
         \<and> (\<forall>e \<in> set (timers st). (Timer_op e, Cancellation) \<in> set (completions st'))
         \<and> (\<forall>io \<in> set (registry st).
               (Io_op (io\<lparr>state := Cancelled\<rparr>), Cancellation) \<in> set (completions st')))"
proof -
  let ?st = "steps (until_stop evs) (reactor_init t0)"
  have alive: "\<forall>k < next_seq (steps evs0 (reactor_init t0)).
      count_list (resolved_seqs (steps evs0 (reactor_init t0))
        @ pending_seqs (steps evs0 (reactor_init t0))) k = 1"
    using accounted_once [OF steps_accounted [OF accounted_init]] by blast
  have returns: "run evs (reactor_init t0) = Some (teardown ?st)"
    using assms by (intro run_until_stop) (simp add: reactor_init_def)
  have "accounted (teardown ?st)"
    by (intro teardown_accounted steps_accounted accounted_init)
  from accounted_once [OF this]
  have once: "\<forall>k < next_seq (teardown ?st). count_list (resolved_seqs (teardown ?st)) k = 1"
    by (simp add: pending_seqs_def teardown_def)
  have empty: "timers (teardown ?st) = []" "registry (teardown ?st) = []"
    by (simp_all add: teardown_def)
  have cancelled: "\<forall>e \<in> set (timers ?st). (Timer_op e, Cancellation) \<in> set (completions (teardown ?st))"
    "\<forall>io \<in> set (registry ?st).
       (Io_op (io\<lparr>state := Cancelled\<rparr>), Cancellation) \<in> set (completions (teardown ?st))"
    by (auto simp: teardown_def)
  show ?thesis
    using alive returns once empty cancelled by (simp add: Let_def)
qed

theorem every_operation_resolved_exactly_once_witness:
  "Request_stop \<in> set (map Schedule_at [5, 3, 5, 3]
       @ [Submit_io 7 Reading, Attempt 4 Would_block, Wait_returns 4, Cancel 0, Request_stop,
          Wait_returns 9])
   \<and> run (map Schedule_at [5, 3, 5, 3]
       @ [Submit_io 7 Reading, Attempt 4 Would_block, Wait_returns 4, Cancel 0, Request_stop,
          Wait_returns 9]) (reactor_init 0)
      = Some \<lparr>clock = 4, next_seq = 5, timers = [], registry = [],
          completions =
            [(Timer_op \<lparr>deadline = 3, seq = 1\<rparr>, Value),
             (Timer_op \<lparr>deadline = 3, seq = 3\<rparr>, Value),
             (Timer_op \<lparr>deadline = 5, seq = 0\<rparr>, Cancellation),
             (Timer_op \<lparr>deadline = 5, seq = 2\<rparr>, Cancellation),
             (Io_op \<lparr>io_seq = 4, descriptor = 7, direction = Reading, state = Cancelled\<rparr>,
              Cancellation)],
          stop_requested = True\<rparr>
   \<and> resolved_seqs (teardown (steps (until_stop (map Schedule_at [5, 3, 5, 3]
       @ [Submit_io 7 Reading, Attempt 4 Would_block, Wait_returns 4, Cancel 0, Request_stop,
          Wait_returns 9])) (reactor_init 0))) = [1, 3, 0, 2, 4]"
proof -
  let ?evs = "map Schedule_at [5, 3, 5, 3]
       @ [Submit_io 7 Reading, Attempt 4 Would_block, Wait_returns 4, Cancel 0, Request_stop,
          Wait_returns 9]"
  have stop: "Request_stop \<in> set ?evs" by simp
  have td: "teardown (steps (until_stop ?evs) (reactor_init 0))
      = \<lparr>clock = 4, next_seq = 5, timers = [], registry = [],
          completions =
            [(Timer_op \<lparr>deadline = 3, seq = 1\<rparr>, Value),
             (Timer_op \<lparr>deadline = 3, seq = 3\<rparr>, Value),
             (Timer_op \<lparr>deadline = 5, seq = 0\<rparr>, Cancellation),
             (Timer_op \<lparr>deadline = 5, seq = 2\<rparr>, Cancellation),
             (Io_op \<lparr>io_seq = 4, descriptor = 7, direction = Reading, state = Cancelled\<rparr>,
              Cancellation)],
          stop_requested = True\<rparr>"
    by (simp add: reactor_init_def entry_before_def dispatch_timers_def cancel_def io_attempt_def
        teardown_def)
  from every_operation_resolved_exactly_once [OF stop, of "[]" 0] stop
  show ?thesis
    unfolding td Let_def by (simp add: resolved_seqs_def)
qed

subsection \<open>Firing order\<close>

lemma expire_sorted:
  "sorted_wrt entry_before q \<Longrightarrow> expire now q cs = (q', cs') \<Longrightarrow> sorted_wrt entry_before q'"
proof (induction q arbitrary: cs)
  case Nil
  then show ?case by simp
next
  case (Cons e q)
  then show ?case by (cases "deadline e \<le> now") auto
qed

lemma queue_ok_init: "queue_ok (reactor_init t0)"
  by (simp add: queue_ok_def reactor_init_def)

lemma step_queue_ok:
  assumes "queue_ok st"
  shows "queue_ok (step ev st)"
proof (cases ev)
  case (Schedule_at tp)
  have "sorted_wrt entry_before (enqueue \<lparr>deadline = tp, seq = next_seq st\<rparr> (timers st))"
    using assms by (intro sorted_enqueue) (auto simp: queue_ok_def)
  then show ?thesis
    using assms by (auto simp: Schedule_at queue_ok_def set_enqueue)
next
  case (Submit_io fd dir)
  then show ?thesis using assms by (auto simp: queue_ok_def)
next
  case (Cancel k)
  then show ?thesis
    using assms
    by (auto simp: cancel_def queue_ok_def sorted_remove1 split: option.splits
        dest: set_remove1_subset [THEN subsetD])
next
  case (Wait_returns t)
  obtain q' cs' where ex: "expire (max (clock st) t) (timers st) (completions st) = (q', cs')"
    by fastforce
  have "sorted_wrt entry_before q'"
    using assms expire_sorted [OF _ ex] by (simp add: queue_ok_def)
  moreover have "set q' \<subseteq> set (timers st)" by (rule expire_timers_subset [OF ex])
  ultimately show ?thesis
    using assms by (auto simp: Wait_returns dispatch_timers_def ex queue_ok_def)
next
  case (Attempt k a)
  then show ?thesis
    using assms by (auto simp: io_attempt_def queue_ok_def split: option.splits attempt.splits)
next
  case Request_stop
  then show ?thesis using assms by (simp add: queue_ok_def)
qed

lemma steps_queue_ok: "queue_ok st \<Longrightarrow> queue_ok (steps evs st)"
  by (induction evs arbitrary: st) (simp_all add: step_queue_ok)

lemma expire_fires_in_order:
  assumes "sorted_wrt entry_before q"
    and "sorted_wrt entry_before (filter (\<lambda>e. e \<in> T) (fired cs))"
    and "\<forall>a \<in> set (fired cs). a \<in> T \<longrightarrow> (\<forall>e \<in> set q. e \<in> T \<longrightarrow> entry_before a e)"
    and "expire now q cs = (q', cs')"
  shows "sorted_wrt entry_before (filter (\<lambda>e. e \<in> T) (fired cs'))
     \<and> (\<forall>a \<in> set (fired cs'). a \<in> T \<longrightarrow> (\<forall>e \<in> set q'. e \<in> T \<longrightarrow> entry_before a e))"
  using assms
proof (induction q arbitrary: cs)
  case Nil
  then show ?case by simp
next
  case (Cons x q)
  show ?case
  proof (cases "deadline x \<le> now")
    case True
    let ?cs = "cs @ [(Timer_op x, Value)]"
    have a: "sorted_wrt entry_before q" using Cons.prems(1) by simp
    have b: "sorted_wrt entry_before (filter (\<lambda>e. e \<in> T) (fired ?cs))"
      using Cons.prems(2,3) by (auto simp: fired_append sorted_wrt_append)
    have c: "\<forall>a \<in> set (fired ?cs). a \<in> T \<longrightarrow> (\<forall>e \<in> set q. e \<in> T \<longrightarrow> entry_before a e)"
      using Cons.prems(1,3) by (auto simp: fired_append)
    have d: "expire now q ?cs = (q', cs')" using Cons.prems(4) True by simp
    from Cons.IH [OF a b c d] show ?thesis .
  next
    case False
    then show ?thesis using Cons.prems by auto
  qed
qed

lemma step_fires_in_order:
  assumes q: "queue_ok st" and f: "fires_in_order T st"
  shows "fires_in_order T (step ev st)"
proof (cases ev)
  case (Schedule_at tp)
  have "\<lparr>deadline = tp, seq = next_seq st\<rparr> \<notin> T"
    using f by (auto simp: fires_in_order_def)
  then show ?thesis
    using f by (auto simp: Schedule_at fires_in_order_def set_enqueue less_Suc_eq)
next
  case (Submit_io fd dir)
  then show ?thesis using f by (auto simp: fires_in_order_def less_Suc_eq)
next
  case (Cancel k)
  then show ?thesis
    using f
    by (auto simp: cancel_def fires_in_order_def fired_append split: option.splits
        dest: set_remove1_subset [THEN subsetD])
next
  case (Wait_returns t)
  obtain q' cs' where ex: "expire (max (clock st) t) (timers st) (completions st) = (q', cs')"
    by fastforce
  have "sorted_wrt entry_before (filter (\<lambda>e. e \<in> T) (fired cs'))
     \<and> (\<forall>a \<in> set (fired cs'). a \<in> T \<longrightarrow> (\<forall>e \<in> set q'. e \<in> T \<longrightarrow> entry_before a e))"
    using q f by (intro expire_fires_in_order [OF _ _ _ ex]) (simp_all add: queue_ok_def fires_in_order_def)
  then show ?thesis
    using f by (simp add: Wait_returns dispatch_timers_def ex fires_in_order_def)
next
  case (Attempt k a)
  then show ?thesis
    using f
    by (auto simp: io_attempt_def fires_in_order_def fired_append split: option.splits attempt.splits)
next
  case Request_stop
  then show ?thesis using f by (simp add: fires_in_order_def)
qed

lemma steps_fires_in_order:
  "queue_ok st \<Longrightarrow> fires_in_order T st \<Longrightarrow> fires_in_order T (steps evs st)"
proof (induction evs arbitrary: st)
  case Nil
  then show ?case by simp
next
  case (Cons ev evs)
  then show ?case by (simp add: step_queue_ok step_fires_in_order)
qed

lemma fired_iff: "e \<in> set (fired cs) \<longleftrightarrow> (Timer_op e, Value) \<in> set cs"
  by (induction cs rule: fired.induct) auto

lemma fired_not_queued:
  assumes "accounted st" and "e \<in> set (fired (completions st))"
  shows "e \<notin> set (timers st)"
proof
  assume "e \<in> set (timers st)"
  then have p: "seq e \<in> set (pending_seqs st)" by (simp add: pending_seqs_def)
  have "(Timer_op e, Value) \<in> set (completions st)" using assms(2) by (simp add: fired_iff)
  then have r: "seq e \<in> set (resolved_seqs st)" by (force simp: resolved_seqs_def)
  have "mset (resolved_seqs st @ pending_seqs st) = mset [0 ..< next_seq st]"
    using assms(1) by (simp add: accounted_def)
  then have "distinct (resolved_seqs st @ pending_seqs st)"
    by (metis distinct_upt mset_eq_imp_distinct_iff)
  with p r show False by auto
qed

lemma fires_in_order_now:
  assumes "accounted st" and "queue_ok st"
  shows "fires_in_order (set (timers st)) st"
proof -
  have "filter (\<lambda>e. e \<in> set (timers st)) (fired (completions st)) = []"
    using fired_not_queued [OF assms(1)] by (auto simp: filter_empty_conv)
  moreover have "\<forall>a \<in> set (fired (completions st)). a \<notin> set (timers st)"
    using fired_not_queued [OF assms(1)] by blast
  ultimately show ?thesis
    using assms(2) by (auto simp: fires_in_order_def queue_ok_def)
qed

lemma expire_fired_mono:
  "expire now q cs = (q', cs') \<Longrightarrow> set (fired cs) \<subseteq> set (fired cs')"
proof (induction q arbitrary: cs)
  case Nil
  then show ?case by simp
next
  case (Cons x q)
  show ?case
  proof (cases "deadline x \<le> now")
    case True
    with Cons.prems have "expire now q (cs @ [(Timer_op x, Value)]) = (q', cs')" by simp
    from Cons.IH [OF this] show ?thesis by (auto simp: fired_append)
  next
    case False
    then show ?thesis using Cons.prems by auto
  qed
qed

lemma step_fired_mono:
  assumes "e \<in> set (fired (completions st))"
  shows "e \<in> set (fired (completions (step ev st)))"
proof (cases ev)
  case (Schedule_at tp)
  then show ?thesis using assms by simp
next
  case (Submit_io fd dir)
  then show ?thesis using assms by simp
next
  case (Cancel k)
  then show ?thesis
    using assms by (auto simp: cancel_def fired_append split: option.splits)
next
  case (Wait_returns t)
  obtain q' cs' where ex: "expire (max (clock st) t) (timers st) (completions st) = (q', cs')"
    by fastforce
  from expire_fired_mono [OF ex] assms show ?thesis
    by (auto simp: Wait_returns dispatch_timers_def ex)
next
  case (Attempt k a)
  then show ?thesis
    using assms by (auto simp: io_attempt_def fired_append split: option.splits attempt.splits)
next
  case Request_stop
  then show ?thesis using assms by simp
qed

lemma steps_fired_mono:
  "e \<in> set (fired (completions st)) \<Longrightarrow> e \<in> set (fired (completions (steps evs st)))"
  by (induction evs arbitrary: st) (simp_all add: step_fired_mono)

lemma step_stays_or_fires:
  assumes "ev \<noteq> Cancel (seq e)"
    and "e \<in> set (timers st) \<union> set (fired (completions st))"
  shows "e \<in> set (timers (step ev st)) \<union> set (fired (completions (step ev st)))"
proof (cases "e \<in> set (fired (completions st))")
  case True
  then show ?thesis by (simp add: step_fired_mono)
next
  case False
  with assms(2) have q: "e \<in> set (timers st)" by simp
  show ?thesis
  proof (cases ev)
    case (Schedule_at tp)
    then show ?thesis using q by (simp add: set_enqueue)
  next
    case (Submit_io fd dir)
    then show ?thesis using q by simp
  next
    case (Cancel k)
    with assms(1) have k: "k \<noteq> seq e" by simp
    show ?thesis
    proof (cases "find (\<lambda>x. seq x = k) (timers st)")
      case None
      then show ?thesis
        using q by (auto simp: Cancel cancel_def split: option.splits)
    next
      case (Some x)
      then have "seq x = k" using find_SomeD by fastforce
      with k have "x \<noteq> e" by auto
      then show ?thesis
        using q by (auto simp: Cancel cancel_def Some)
    qed
  next
    case (Wait_returns t)
    obtain q' cs' where ex: "expire (max (clock st) t) (timers st) (completions st) = (q', cs')"
      by fastforce
    from expire_keeps_or_fires [OF ex, of e] q show ?thesis
      by (simp add: Wait_returns dispatch_timers_def ex)
  next
    case (Attempt k a)
    then show ?thesis
      using q by (auto simp: io_attempt_def split: option.splits attempt.splits)
  next
    case Request_stop
    then show ?thesis using q by simp
  qed
qed

lemma wait_fires_due:
  assumes "queue_ok st" and "deadline e \<le> t"
    and "e \<in> set (timers st) \<union> set (fired (completions st))"
  shows "e \<in> set (fired (completions (step (Wait_returns t) st)))"
proof -
  obtain q' cs' where ex: "expire (max (clock st) t) (timers st) (completions st) = (q', cs')"
    by fastforce
  have "sorted_wrt entry_before (timers st)" using assms(1) by (simp add: queue_ok_def)
  from expire_leaves_not_due [OF this ex] assms(2) have "e \<notin> set q'" by auto
  with expire_keeps_or_fires [OF ex assms(3)] show ?thesis
    by (simp add: dispatch_timers_def ex)
qed

lemma steps_fire_due:
  "queue_ok st \<Longrightarrow> e \<in> set (timers st) \<union> set (fired (completions st))
    \<Longrightarrow> Wait_returns t \<in> set evs \<Longrightarrow> deadline e \<le> t \<Longrightarrow> Cancel (seq e) \<notin> set evs
    \<Longrightarrow> e \<in> set (fired (completions (steps evs st)))"
proof (induction evs arbitrary: st)
  case Nil
  then show ?case by simp
next
  case (Cons ev evs)
  have ok: "queue_ok (step ev st)" using Cons.prems(1) by (rule step_queue_ok)
  have here: "e \<in> set (timers (step ev st)) \<union> set (fired (completions (step ev st)))"
    using Cons.prems(2,5) by (intro step_stays_or_fires) auto
  show ?case
  proof (cases "Wait_returns t \<in> set evs")
    case True
    from Cons.IH [OF ok here True Cons.prems(4)] Cons.prems(5) show ?thesis by simp
  next
    case False
    with Cons.prems(3) have "ev = Wait_returns t" by simp
    then have "e \<in> set (fired (completions (step ev st)))"
      using wait_fires_due [OF Cons.prems(1,4,2)] by simp
    then show ?thesis by (simp add: steps_fired_mono)
  qed
qed

text \<open>
  C1. Take the reactor at any moment, after any events \<open>evs1\<close>, and the timers
  registered at that moment; then let anything happen, \<open>evs2\<close>: waits that return at any
  readings of the clock, cancellations, I/O, further submissions. The timers of that set
  whose value continuation has run, in the order in which they ran, are strictly
  increasing in (deadline, sequence number): by non-decreasing deadline, and among equal
  deadlines by sequence number. They do run: a timer of the set that was not cancelled
  has fired once a wait has returned at or after its deadline. And the sequence number is
  the order of submission: every registered timer has a number below the one the next
  timer submitted gets.
\<close>

theorem timers_fire_by_deadline_then_submission:
  "(let st1 = steps evs1 (reactor_init t0); st2 = steps evs2 st1
    in sorted_wrt entry_before
         (filter (\<lambda>e. e \<in> set (timers st1)) (fired (completions st2)))
     \<and> (\<forall>e t. e \<in> set (timers st1) \<and> Wait_returns t \<in> set evs2 \<and> deadline e \<le> t
              \<and> Cancel (seq e) \<notin> set evs2
            \<longrightarrow> e \<in> set (fired (completions st2)))
     \<and> (\<forall>e \<in> set (timers st1). seq e < next_seq st1)
     \<and> set (timers (step (Schedule_at tp) st1))
         = insert \<lparr>deadline = tp, seq = next_seq st1\<rparr> (set (timers st1)))"
proof -
  let ?st1 = "steps evs1 (reactor_init t0)"
  let ?st2 = "steps evs2 ?st1"
  have acc: "accounted ?st1" by (intro steps_accounted accounted_init)
  have ok: "queue_ok ?st1" by (intro steps_queue_ok queue_ok_init)
  have "fires_in_order (set (timers ?st1)) ?st2"
    by (intro steps_fires_in_order ok fires_in_order_now acc)
  then have sorted: "sorted_wrt entry_before
      (filter (\<lambda>e. e \<in> set (timers ?st1)) (fired (completions ?st2)))"
    by (simp add: fires_in_order_def)
  have due: "e \<in> set (fired (completions ?st2))"
    if "e \<in> set (timers ?st1)" "Wait_returns t \<in> set evs2" "deadline e \<le> t"
      "Cancel (seq e) \<notin> set evs2" for e t
    using that by (intro steps_fire_due [OF ok]) simp_all
  have numbered: "\<forall>e \<in> set (timers ?st1). seq e < next_seq ?st1"
    using ok by (simp add: queue_ok_def)
  have "set (timers (step (Schedule_at tp) ?st1))
      = insert \<lparr>deadline = tp, seq = next_seq ?st1\<rparr> (set (timers ?st1))"
    by (simp add: set_enqueue)
  with sorted due numbered show ?thesis
    unfolding Let_def by blast
qed

theorem timers_fire_by_deadline_then_submission_witness:
  "set (timers (steps [Schedule_at 1, Wait_returns 1, Schedule_at 7, Schedule_at 7, Schedule_at 4]
          (reactor_init 0)))
     = {\<lparr>deadline = 4, seq = 3\<rparr>, \<lparr>deadline = 7, seq = 1\<rparr>, \<lparr>deadline = 7, seq = 2\<rparr>}
   \<and> fired (completions (steps [Schedule_at 2, Cancel 9, Wait_returns 10]
        (steps [Schedule_at 1, Wait_returns 1, Schedule_at 7, Schedule_at 7, Schedule_at 4]
          (reactor_init 0))))
       = [\<lparr>deadline = 1, seq = 0\<rparr>, \<lparr>deadline = 2, seq = 4\<rparr>, \<lparr>deadline = 4, seq = 3\<rparr>,
          \<lparr>deadline = 7, seq = 1\<rparr>, \<lparr>deadline = 7, seq = 2\<rparr>]
   \<and> sorted_wrt entry_before
         (filter (\<lambda>e. e \<in> set (timers (steps [Schedule_at 1, Wait_returns 1, Schedule_at 7,
              Schedule_at 7, Schedule_at 4] (reactor_init 0))))
            (fired (completions (steps [Schedule_at 2, Cancel 9, Wait_returns 10]
              (steps [Schedule_at 1, Wait_returns 1, Schedule_at 7, Schedule_at 7, Schedule_at 4]
                (reactor_init 0))))))"
proof -
  have a: "timers (steps [Schedule_at 1, Wait_returns 1, Schedule_at 7, Schedule_at 7, Schedule_at 4]
          (reactor_init 0))
     = [\<lparr>deadline = 4, seq = 3\<rparr>, \<lparr>deadline = 7, seq = 1\<rparr>, \<lparr>deadline = 7, seq = 2\<rparr>]"
    by (simp add: reactor_init_def entry_before_def dispatch_timers_def)
  have b: "fired (completions (steps [Schedule_at 2, Cancel 9, Wait_returns 10]
        (steps [Schedule_at 1, Wait_returns 1, Schedule_at 7, Schedule_at 7, Schedule_at 4]
          (reactor_init 0))))
       = [\<lparr>deadline = 1, seq = 0\<rparr>, \<lparr>deadline = 2, seq = 4\<rparr>, \<lparr>deadline = 4, seq = 3\<rparr>,
          \<lparr>deadline = 7, seq = 1\<rparr>, \<lparr>deadline = 7, seq = 2\<rparr>]"
    by (simp add: reactor_init_def entry_before_def dispatch_timers_def cancel_def)
  from timers_fire_by_deadline_then_submission
    [of "[Schedule_at 1, Wait_returns 1, Schedule_at 7, Schedule_at 7, Schedule_at 4]" 0
        "[Schedule_at 2, Cancel 9, Wait_returns 10]" 0]
  have "sorted_wrt entry_before
         (filter (\<lambda>e. e \<in> set (timers (steps [Schedule_at 1, Wait_returns 1, Schedule_at 7,
              Schedule_at 7, Schedule_at 4] (reactor_init 0))))
            (fired (completions (steps [Schedule_at 2, Cancel 9, Wait_returns 10]
              (steps [Schedule_at 1, Wait_returns 1, Schedule_at 7, Schedule_at 7, Schedule_at 4]
                (reactor_init 0))))))"
    unfolding Let_def by (rule conjunct1)
  with a b show ?thesis by simp
qed

end
